theory Spec2Isabelle
  imports Complex_Main "HOL-Library.Sublist"
begin

section \<open>The shared Modbus host of the Siemens RDF302 integration\<close>

text \<open>
  The development embeds \<^verbatim>\<open>modbus_host.py\<close> (class \<^verbatim>\<open>ModbusHost\<close>) and the
  entry set-up and unload functions of \<^verbatim>\<open>__init__.py\<close>. The pymodbus client, the
  device behind it and asyncio are outside the repository: each operation is
  given a transport script that says what the client answers, and it returns,
  next to its Python result, the host object as it leaves it and the list of
  calls it made on the client, the lock and \<^verbatim>\<open>asyncio.sleep\<close>, oldest first.
  Calls of the logger are not recorded.
\<close>

subsection \<open>Exceptions, requests and observable calls\<close>

text \<open>
  The exception classes the code names or can meet, all subclasses of
  \<^verbatim>\<open>Exception\<close>: \<^verbatim>\<open>ModbusIOException\<close> is a subclass of \<^verbatim>\<open>ModbusException\<close>;
  \<open>OtherException\<close> stands for any other exception a client call raises.
  \<^verbatim>\<open>TypeError\<close> is what \<^verbatim>\<open>await\<close> raises on a value that is not awaitable.
\<close>

datatype exn =
  ModbusIOException | ModbusException | OtherException | KeyError | IndexError | TypeError

text \<open>The client calls, with their arguments in the order the code passes them.\<close>

datatype request =
    ReadHoldingRegisters int int int
  | ReadInputRegisters int int int
  | ReadCoils int int int
  | WriteRegister int int int
  | WriteCoil int bool int

datatype event =
    LockAcquire
  | LockRelease
  | Connect
  | Close
  | Request request
  | Sleep rat

text \<open>
  What a client call does: it raises, or it returns a response object with its
  \<^verbatim>\<open>isError()\<close> flag and its \<^verbatim>\<open>registers\<close> or \<^verbatim>\<open>bits\<close>.
\<close>

datatype 'v outcome = Raises exn | Response bool "'v list"

text \<open>
  The transport script of one operation, indexed by the attempt number
  (from 0, the loop variable \<^verbatim>\<open>attempt\<close>): \<open>on_connect i\<close> says whether a
  \<^verbatim>\<open>connect()\<close> issued in attempt \<open>i\<close> establishes the connection, and
  \<open>on_request i\<close> is the outcome of the read or write call of attempt \<open>i\<close>.
  A failed \<^verbatim>\<open>connect()\<close> returns without raising and leaves the client
  disconnected; the failure then shows in the outcome of the request.
\<close>

record 'v transport =
  on_connect :: "nat \<Rightarrow> bool"
  on_request :: "nat \<Rightarrow> 'v outcome"

subsection \<open>The host object\<close>

text \<open>
  The fields of \<^verbatim>\<open>ModbusHost\<close>. Of the client only its \<^verbatim>\<open>connected\<close> property is
  state; it changes only through the \<^verbatim>\<open>connect()\<close> and \<^verbatim>\<open>close()\<close> calls of this
  module. The retry delay is a Python float that is only handed on to
  \<^verbatim>\<open>asyncio.sleep\<close>; it is kept as a rational.
\<close>

record ModbusHost =
  host :: string
  port :: int
  connected :: bool
  subscriber_count :: int
  max_retry_count :: int
  retry_delay :: rat

definition ModbusHost_init :: "string \<Rightarrow> int \<Rightarrow> int \<Rightarrow> rat \<Rightarrow> ModbusHost" where
  "ModbusHost_init h p max_retries delay =
     \<lparr>host = h, port = p, connected = False, subscriber_count = 0,
      max_retry_count = max_retries, retry_delay = delay\<rparr>"

text \<open>The constructor with its default arguments \<^verbatim>\<open>max_retries=3, retry_delay=0.5\<close>.\<close>

definition ModbusHost_new :: "string \<Rightarrow> int \<Rightarrow> ModbusHost" where
  "ModbusHost_new h p = ModbusHost_init h p 3 (1 / 2)"

definition async_connect :: "bool \<Rightarrow> ModbusHost \<Rightarrow> ModbusHost \<times> event list" where
  "async_connect up h =
     (if \<not> connected h then (h\<lparr>connected := up\<rparr>, [Connect]) else (h, []))"

text \<open>
  \<^verbatim>\<open>async_disconnect\<close> awaits what \<^verbatim>\<open>self._client.close()\<close> returns. The call
  closes the client; \<open>closing\<close> says what the \<^verbatim>\<open>await\<close> does then: \<open>None\<close> when
  it returns, \<open>Some e\<close> when it raises \<open>e\<close>. A client whose \<^verbatim>\<open>close()\<close> is a
  plain method returns \<^verbatim>\<open>None\<close> from it, and awaiting that raises \<^verbatim>\<open>TypeError\<close>.
\<close>

definition async_disconnect ::
  "exn option \<Rightarrow> ModbusHost \<Rightarrow> (exn + unit) \<times> ModbusHost \<times> event list"
where
  "async_disconnect closing h =
     (if connected h
      then (case closing of None \<Rightarrow> Inr () | Some e \<Rightarrow> Inl e,
            h\<lparr>connected := False\<rparr>, [Close])
      else (Inr (), h, []))"

definition add_subscriber :: "ModbusHost \<Rightarrow> ModbusHost" where
  "add_subscriber h = h\<lparr>subscriber_count := subscriber_count h + 1\<rparr>"

definition get_subscriber_count :: "ModbusHost \<Rightarrow> int" where
  "get_subscriber_count h = subscriber_count h"

text \<open>
  \<^verbatim>\<open>remove_subscriber\<close> returns the host and whether it created the task that
  runs \<^verbatim>\<open>async_disconnect\<close> later.
\<close>

definition remove_subscriber :: "ModbusHost \<Rightarrow> ModbusHost \<times> bool" where
  "remove_subscriber h =
     (let h' = h\<lparr>subscriber_count := subscriber_count h - 1\<rparr>
      in (h', subscriber_count h' = 0))"

subsection \<open>Register operations\<close>

text \<open>
  \<^verbatim>\<open>async with self._lock\<close>: the lock is taken before the body and released on
  every way out of it, a return or an exception alike.
\<close>

definition with_lock ::
  "(ModbusHost \<Rightarrow> 'r \<times> ModbusHost \<times> event list) \<Rightarrow> ModbusHost \<Rightarrow> 'r \<times> ModbusHost \<times> event list"
where
  "with_lock body h =
     (case body h of (r, h', evs) \<Rightarrow> (r, h', LockAcquire # evs @ [LockRelease]))"

text \<open>
  The retry loop shared, word for word, by \<^verbatim>\<open>async_read_holding_registers\<close>,
  \<^verbatim>\<open>async_read_input_registers\<close> and \<^verbatim>\<open>async_read_coils\<close>, over the attempt
  numbers that \<^verbatim>\<open>range(self._max_retry_count)\<close> still has to yield. An exception
  of the client call is not caught: it leaves the loop (\<open>Inl\<close>). The empty list
  is the end of the loop: \<^verbatim>\<open>return None\<close>.
\<close>

fun read_attempts ::
  "'v transport \<Rightarrow> request \<Rightarrow> int \<Rightarrow> nat list \<Rightarrow> ModbusHost
     \<Rightarrow> (exn + 'v list option) \<times> ModbusHost \<times> event list"
where
  "read_attempts tr rq cnt [] h = (Inr None, h, [])"
| "read_attempts tr rq cnt (attempt # rest) h =
     (case async_connect (on_connect tr attempt) h of (h1, evs1) \<Rightarrow>
        (case on_request tr attempt of
           Raises e \<Rightarrow> (Inl e, h1, evs1 @ [Request rq])
         | Response err vals \<Rightarrow>
             if \<not> err \<and> int (length vals) = cnt
             then (Inr (Some vals), h1, evs1 @ [Request rq])
             else
               (case read_attempts tr rq cnt rest h1 of (r, h2, evs3) \<Rightarrow>
                  (r, h2,
                   evs1 @ [Request rq]
                     @ (if int attempt < max_retry_count h1 - 1
                        then [Sleep (retry_delay h1)] else [])
                     @ evs3))))"

definition async_read_holding_registers ::
  "int transport \<Rightarrow> ModbusHost \<Rightarrow> int \<Rightarrow> int \<Rightarrow> int
     \<Rightarrow> (exn + int list option) \<times> ModbusHost \<times> event list"
where
  "async_read_holding_registers tr h unit_id address cnt =
     with_lock
       (read_attempts tr (ReadHoldingRegisters address cnt unit_id) cnt
          [0 ..< nat (max_retry_count h)]) h"

definition async_read_input_registers ::
  "int transport \<Rightarrow> ModbusHost \<Rightarrow> int \<Rightarrow> int \<Rightarrow> int
     \<Rightarrow> (exn + int list option) \<times> ModbusHost \<times> event list"
where
  "async_read_input_registers tr h unit_id address cnt =
     with_lock
       (read_attempts tr (ReadInputRegisters address cnt unit_id) cnt
          [0 ..< nat (max_retry_count h)]) h"

definition async_read_coils ::
  "bool transport \<Rightarrow> ModbusHost \<Rightarrow> int \<Rightarrow> int \<Rightarrow> int
     \<Rightarrow> (exn + bool list option) \<times> ModbusHost \<times> event list"
where
  "async_read_coils tr h unit_id address cnt =
     with_lock
       (read_attempts tr (ReadCoils address cnt unit_id) cnt
          [0 ..< nat (max_retry_count h)]) h"

text \<open>
  \<^verbatim>\<open>async_read_coil\<close>: one call for one coil, no loop; \<^verbatim>\<open>result.bits[0]\<close> raises
  \<^verbatim>\<open>IndexError\<close> on an empty list.
\<close>

definition async_read_coil ::
  "bool transport \<Rightarrow> ModbusHost \<Rightarrow> int \<Rightarrow> int
     \<Rightarrow> (exn + bool option) \<times> ModbusHost \<times> event list"
where
  "async_read_coil tr h unit_id address =
     with_lock
       (\<lambda>h0. case async_connect (on_connect tr 0) h0 of (h1, evs1) \<Rightarrow>
          (case on_request tr 0 of
             Raises e \<Rightarrow> (Inl e, h1, evs1 @ [Request (ReadCoils address 1 unit_id)])
           | Response err bits \<Rightarrow>
               (if \<not> err
                then (case bits of
                        [] \<Rightarrow> Inl IndexError
                      | b # _ \<Rightarrow> Inr (Some b))
                else Inr None,
                h1, evs1 @ [Request (ReadCoils address 1 unit_id)]))) h"

text \<open>
  The \<^verbatim>\<open>except\<close> clauses of the two write operations, in their order; every
  one returns \<^verbatim>\<open>False\<close>. The result of a write is \<open>Some True\<close>, \<open>Some False\<close>,
  or \<open>None\<close> for Python's \<^verbatim>\<open>None\<close>, which a function returns when its body ends
  without a \<^verbatim>\<open>return\<close>.
\<close>

definition write_handlers :: "exn \<Rightarrow> bool option" where
  "write_handlers e =
     (if e = ModbusIOException then Some False
      else if e = ModbusIOException \<or> e = ModbusException then Some False
      else Some False)"

text \<open>
  The body both write operations share: connect, one call, \<^verbatim>\<open>return True\<close> when
  the response is no error; otherwise the error is logged and the \<^verbatim>\<open>try\<close> block
  ends, and with it the function.
\<close>

definition write_once ::
  "'v transport \<Rightarrow> request \<Rightarrow> ModbusHost \<Rightarrow> (exn + bool option) \<times> ModbusHost \<times> event list"
where
  "write_once tr rq h =
     (case async_connect (on_connect tr 0) h of (h1, evs1) \<Rightarrow>
        (case on_request tr 0 of
           Raises e \<Rightarrow> (Inr (write_handlers e), h1, evs1 @ [Request rq])
         | Response err vals \<Rightarrow>
             (if \<not> err then Inr (Some True) else Inr None, h1, evs1 @ [Request rq])))"

definition async_write_register ::
  "'v transport \<Rightarrow> ModbusHost \<Rightarrow> int \<Rightarrow> int \<Rightarrow> int
     \<Rightarrow> (exn + bool option) \<times> ModbusHost \<times> event list"
where
  "async_write_register tr h unit_id address val =
     with_lock (write_once tr (WriteRegister address val unit_id)) h"

definition async_write_coil ::
  "'v transport \<Rightarrow> ModbusHost \<Rightarrow> int \<Rightarrow> int \<Rightarrow> bool
     \<Rightarrow> (exn + bool option) \<times> ModbusHost \<times> event list"
where
  "async_write_coil tr h unit_id address val =
     with_lock (write_once tr (WriteCoil address val unit_id)) h"

subsection \<open>The host registry and the entry life cycle\<close>

text \<open>
  The registry key is \<^verbatim>\<open>f"{host}:{port}"\<close>: the host string, a colon and the
  decimal form of the port, as \<^verbatim>\<open>str\<close> prints a Python integer.
\<close>

fun digits :: "nat \<Rightarrow> string" where
  "digits n =
     (if n < 10 then [''0123456789'' ! n]
      else digits (n div 10) @ [''0123456789'' ! (n mod 10)])"

declare digits.simps [simp del]

definition str_int :: "int \<Rightarrow> string" where
  "str_int i = (if i < 0 then CHR ''-'' # digits (nat (- i)) else digits (nat i))"

text \<open>What the code reads of a config entry: its id and the two data fields.\<close>

record ConfigEntry =
  entry_id :: string
  conf_host :: string
  conf_port :: int

definition host_key :: "ConfigEntry \<Rightarrow> string" where
  "host_key entry = conf_host entry @ '':'' @ str_int (conf_port entry)"

text \<open>
  Home Assistant's state as the two functions use it. The \<^verbatim>\<open>ModbusHost\<close> objects
  live in a store and are named by references, since the registry, the entry
  table and a pending task can all hold the same object. \<open>domain_data\<close> is
  \<^verbatim>\<open>hass.data[DOMAIN]\<close>, the registry; \<open>entry_data\<close> is the part of \<^verbatim>\<open>hass.data\<close>
  keyed by entry ids (an entry id is never the domain name); \<open>tasks\<close> are the
  tasks \<^verbatim>\<open>asyncio.create_task\<close> has created and the event loop has not run yet,
  each the \<^verbatim>\<open>async_disconnect\<close> of the host it names.
\<close>

record hass =
  store :: "nat \<Rightarrow> ModbusHost"
  next_ref :: nat
  domain_data :: "string \<rightharpoonup> nat"
  entry_data :: "string \<rightharpoonup> nat"
  tasks :: "nat list"

text \<open>\<^verbatim>\<open>async_setup\<close>: \<^verbatim>\<open>hass.data[DOMAIN] = {}\<close>.\<close>

definition async_setup :: "hass \<Rightarrow> hass" where
  "async_setup hs = hs\<lparr>domain_data := Map.empty\<rparr>"

text \<open>
  \<^verbatim>\<open>async_setup_entry\<close>, up to the point where it registers the update listener
  and forwards the entry to the platforms, which is Home Assistant's own code
  and is taken to succeed.
\<close>

definition async_setup_entry :: "hass \<Rightarrow> ConfigEntry \<Rightarrow> (exn + bool) \<times> hass" where
  "async_setup_entry hs entry =
     (let key = host_key entry;
          hs1 = (if domain_data hs key = None
                 then hs\<lparr>store := (store hs)
                            (next_ref hs := ModbusHost_new (conf_host entry) (conf_port entry)),
                         next_ref := Suc (next_ref hs),
                         domain_data := (domain_data hs)(key \<mapsto> next_ref hs)\<rparr>
                 else hs)
      in case domain_data hs1 key of
           None \<Rightarrow> (Inl KeyError, hs1)
         | Some r \<Rightarrow>
             (let hs2 = hs1\<lparr>store := (store hs1)(r := add_subscriber (store hs1 r))\<rparr>;
                  hs3 = hs2\<lparr>entry_data := (entry_data hs2)(entry_id entry \<mapsto> r)\<rparr>
              in (Inr True, hs3)))"

text \<open>
  \<^verbatim>\<open>async_unload_entry\<close>; \<open>unload_ok\<close> is what Home Assistant's
  \<^verbatim>\<open>async_unload_platforms\<close> returned. A missing key makes the dictionary
  look-up or the \<^verbatim>\<open>del\<close> raise \<^verbatim>\<open>KeyError\<close>, and an exception of
  \<^verbatim>\<open>await modbus_host.async_disconnect()\<close> leaves the function before the two
  \<^verbatim>\<open>del\<close> statements; the state is then as the statements before left it.
  \<open>closing\<close> is handed to \<open>async_disconnect\<close>.
\<close>

definition async_unload_entry ::
  "hass \<Rightarrow> ConfigEntry \<Rightarrow> bool \<Rightarrow> exn option
     \<Rightarrow> (exn + bool) \<times> hass \<times> event list"
where
  "async_unload_entry hs entry unload_ok closing =
     (let key = host_key entry in
      if unload_ok then
        (case domain_data hs key of
           None \<Rightarrow> (Inl KeyError, hs, [])
         | Some r \<Rightarrow>
             (case remove_subscriber (store hs r) of (h1, task) \<Rightarrow>
                (let hs1 = hs\<lparr>store := (store hs)(r := h1),
                               tasks := tasks hs @ (if task then [r] else [])\<rparr>;
                     (raised, hs2, evs) =
                       (if get_subscriber_count (store hs1 r) = 0
                        then (case async_disconnect closing (store hs1 r) of
                                (Inl e, h2, evs) \<Rightarrow>
                                  (Some e, hs1\<lparr>store := (store hs1)(r := h2)\<rparr>, evs)
                              | (Inr _, h2, evs) \<Rightarrow>
                                  (None,
                                   hs1\<lparr>store := (store hs1)(r := h2),
                                        domain_data := (domain_data hs1)(key := None)\<rparr>,
                                   evs))
                        else (None, hs1, []))
                 in case raised of
                      Some e \<Rightarrow> (Inl e, hs2, evs)
                    | None \<Rightarrow>
                        (case entry_data hs2 (entry_id entry) of
                           None \<Rightarrow> (Inl KeyError, hs2, evs)
                         | Some _ \<Rightarrow>
                             (Inr True,
                              hs2\<lparr>entry_data := (entry_data hs2)(entry_id entry := None)\<rparr>,
                              evs)))))
      else (Inr False, hs, []))"

text \<open>
  The event loop runs the oldest pending task. An exception of the task stays
  in the task object and reaches nobody.
\<close>

definition run_task :: "exn option \<Rightarrow> hass \<Rightarrow> hass \<times> event list" where
  "run_task closing hs =
     (case tasks hs of
        [] \<Rightarrow> (hs, [])
      | r # rest \<Rightarrow>
          (case async_disconnect closing (store hs r) of (_, h', evs) \<Rightarrow>
             (hs\<lparr>store := (store hs)(r := h'), tasks := rest\<rparr>, evs)))"

text \<open>
  A read by the climate entity of an entry: the entity holds the host it found
  at \<^verbatim>\<open>hass.data[entry.entry_id]\<close> (\<^verbatim>\<open>climate.py\<close>, \<^verbatim>\<open>async_setup_entry\<close>) and
  calls \<^verbatim>\<open>async_read_input_registers\<close> on it (\<^verbatim>\<open>async_update\<close>).
\<close>

definition entity_read ::
  "hass \<Rightarrow> ConfigEntry \<Rightarrow> int transport \<Rightarrow> int \<Rightarrow> int \<Rightarrow> int
     \<Rightarrow> (exn + int list option) \<times> hass \<times> event list"
where
  "entity_read hs entry tr unit_id address cnt =
     (case entry_data hs (entry_id entry) of
        None \<Rightarrow> (Inl KeyError, hs, [])
      | Some r \<Rightarrow>
          (case async_read_input_registers tr (store hs r) unit_id address cnt of
             (res, h', evs) \<Rightarrow> (res, hs\<lparr>store := (store hs)(r := h')\<rparr>, evs)))"

text \<open>
  A history of the registry: entries set up and unloaded, pending tasks run
  and entities reading, in any order. A call that raises leaves the state it
  had reached, and the next call goes on from there.
\<close>

datatype call =
    SetupEntry ConfigEntry
  | UnloadEntry ConfigEntry bool "exn option"
  | RunTask "exn option"
  | EntityRead ConfigEntry "int transport" int int int

fun step :: "hass \<Rightarrow> call \<Rightarrow> hass" where
  "step hs (SetupEntry entry) = snd (async_setup_entry hs entry)"
| "step hs (UnloadEntry entry unload_ok closing) =
     fst (snd (async_unload_entry hs entry unload_ok closing))"
| "step hs (RunTask closing) = fst (run_task closing hs)"
| "step hs (EntityRead entry tr unit_id address cnt) =
     fst (snd (entity_read hs entry tr unit_id address cnt))"

definition run_calls :: "hass \<Rightarrow> call list \<Rightarrow> hass" where
  "run_calls hs calls = foldl step hs calls"

subsection \<open>Observations used in the statements\<close>

text \<open>
  What the properties read off a run: the requests among the calls made, and
  the requests together with the sleeps (\<open>pacing\<close>). \<open>paced n a w\<close> is the
  schedule of \<open>n\<close> attempts \<open>a\<close> with one wait \<open>w\<close> between each two.
\<close>

fun is_request :: "event \<Rightarrow> bool" where
  "is_request (Request _) = True"
| "is_request _ = False"

fun is_sleep :: "event \<Rightarrow> bool" where
  "is_sleep (Sleep _) = True"
| "is_sleep _ = False"

definition requests :: "event list \<Rightarrow> event list" where
  "requests evs = filter is_request evs"

definition pacing :: "event list \<Rightarrow> event list" where
  "pacing evs = filter (\<lambda>e. is_request e \<or> is_sleep e) evs"

fun paced :: "nat \<Rightarrow> event \<Rightarrow> event \<Rightarrow> event list" where
  "paced 0 a w = []"
| "paced (Suc 0) a w = [a]"
| "paced (Suc (Suc n)) a w = a # w # paced (Suc n) a w"

text \<open>
  An attempt is rejected when the client call returns a response that fails
  the test of the loop, \<^verbatim>\<open>not result.isError() and len(...) == count\<close>. A call
  that raises is not a rejected attempt: it ends the operation.
\<close>

fun rejected :: "int \<Rightarrow> 'v outcome \<Rightarrow> bool" where
  "rejected cnt (Raises e) = False"
| "rejected cnt (Response err vals) = (\<not> (\<not> err \<and> int (length vals) = cnt))"

text \<open>The requests and sleeps of one rejected attempt number \<open>i\<close>.\<close>

definition attempt_events :: "request \<Rightarrow> ModbusHost \<Rightarrow> nat \<Rightarrow> event list" where
  "attempt_events rq h i =
     Request rq # (if int i < max_retry_count h - 1 then [Sleep (retry_delay h)] else [])"

abbreviation result_of :: "'r \<times> ModbusHost \<times> event list \<Rightarrow> 'r" where
  "result_of x \<equiv> fst x"

abbreviation events_of :: "'r \<times> ModbusHost \<times> event list \<Rightarrow> event list" where
  "events_of x \<equiv> snd (snd x)"

text \<open>
  For the registry: an acquire of a key is a set-up of an entry with that key;
  a release is an unload of such an entry whose platforms unloaded, the only
  case in which \<^verbatim>\<open>remove_subscriber\<close> is called. A history is \<open>matched\<close> for
  a key when none of its prefixes has more releases than acquires. The count
  of a key is the subscriber count of the host registered under it, 0 when
  there is none.
\<close>

fun is_acquire :: "string \<Rightarrow> call \<Rightarrow> bool" where
  "is_acquire key (SetupEntry entry) = (host_key entry = key)"
| "is_acquire key _ = False"

fun is_release :: "string \<Rightarrow> call \<Rightarrow> bool" where
  "is_release key (UnloadEntry entry unload_ok closing) = (unload_ok \<and> host_key entry = key)"
| "is_release key _ = False"

definition acquires :: "string \<Rightarrow> call list \<Rightarrow> nat" where
  "acquires key calls = length (filter (is_acquire key) calls)"

definition releases :: "string \<Rightarrow> call list \<Rightarrow> nat" where
  "releases key calls = length (filter (is_release key) calls)"

definition matched :: "string \<Rightarrow> call list \<Rightarrow> bool" where
  "matched key calls = list_all (\<lambda>p. releases key p \<le> acquires key p) (prefixes calls)"

definition registered :: "hass \<Rightarrow> string \<Rightarrow> bool" where
  "registered hs key = (domain_data hs key \<noteq> None)"

definition count_at :: "hass \<Rightarrow> string \<Rightarrow> int" where
  "count_at hs key =
     (case domain_data hs key of None \<Rightarrow> 0 | Some r \<Rightarrow> get_subscriber_count (store hs r))"

text \<open>
  Two invariants of the registry. It is well formed when registered references
  are allocated and no two keys share a host; it is sound when, besides, every
  registered host has a positive count. A call is \<open>quiet\<close> unless it is an
  unload in which the \<^verbatim>\<open>await\<close> of \<^verbatim>\<open>close()\<close> raises.
\<close>

definition registry_wf :: "hass \<Rightarrow> bool" where
  "registry_wf hs =
     ((\<forall>k r. domain_data hs k = Some r \<longrightarrow> r < next_ref hs)
      \<and> (\<forall>k k' r. domain_data hs k = Some r \<longrightarrow> domain_data hs k' = Some r \<longrightarrow> k = k'))"

definition registry_ok :: "hass \<Rightarrow> bool" where
  "registry_ok hs =
     (registry_wf hs
      \<and> (\<forall>k r. domain_data hs k = Some r \<longrightarrow> 0 < subscriber_count (store hs r)))"

fun quiet :: "call \<Rightarrow> bool" where
  "quiet (UnloadEntry entry unload_ok closing) = (closing = None)"
| "quiet _ = True"

subsection \<open>Example scenarios\<close>

text \<open>
  A host with \<^verbatim>\<open>max_retries=3, retry_delay=0\<close> and mock transports: one that
  answers every request with a protocol error; two that do so twice and then
  return one value; one whose every call raises an I/O fault and one that
  does so from the second attempt on; one that returns a response with no
  bits, one that returns the eight bits of a byte for one coil, and one that
  returns one register at once. Then two
  config entries for the endpoint 10.0.0.5:502, a Home Assistant state with
  nothing in it, and one in which the first entry has been set up and its host
  is connected.
\<close>

definition example_host :: ModbusHost where
  "example_host = ModbusHost_init ''10.0.0.5'' 502 3 0"

definition always_error :: "'v transport" where
  "always_error = \<lparr>on_connect = (\<lambda>_. True), on_request = (\<lambda>_. Response True [])\<rparr>"

definition third_time :: "int transport" where
  "third_time =
     \<lparr>on_connect = (\<lambda>_. True),
      on_request = (\<lambda>i. if i < 2 then Response True [] else Response False [42])\<rparr>"

definition third_time_coils :: "bool transport" where
  "third_time_coils =
     \<lparr>on_connect = (\<lambda>_. True),
      on_request = (\<lambda>i. if i < 2 then Response True [] else Response False [True])\<rparr>"

definition io_fault :: "'v transport" where
  "io_fault = \<lparr>on_connect = (\<lambda>_. True), on_request = (\<lambda>_. Raises ModbusIOException)\<rparr>"

definition fault_on_second :: "'v transport" where
  "fault_on_second =
     \<lparr>on_connect = (\<lambda>_. True),
      on_request = (\<lambda>i. if i = 0 then Response True [] else Raises ModbusIOException)\<rparr>"

definition empty_reply :: "bool transport" where
  "empty_reply = \<lparr>on_connect = (\<lambda>_. True), on_request = (\<lambda>_. Response False [])\<rparr>"

definition coil_byte :: "bool transport" where
  "coil_byte =
     \<lparr>on_connect = (\<lambda>_. True),
      on_request = (\<lambda>_. Response False [True, False, False, False, False, False, False, False])\<rparr>"

definition one_register :: "int transport" where
  "one_register = \<lparr>on_connect = (\<lambda>_. True), on_request = (\<lambda>_. Response False [1050])\<rparr>"

definition entry_a :: ConfigEntry where
  "entry_a = \<lparr>entry_id = ''entry-a'', conf_host = ''10.0.0.5'', conf_port = 502\<rparr>"

definition entry_b :: ConfigEntry where
  "entry_b = \<lparr>entry_id = ''entry-b'', conf_host = ''10.0.0.5'', conf_port = 502\<rparr>"

definition fresh_hass :: hass where
  "fresh_hass =
     \<lparr>store = (\<lambda>_. ModbusHost_new [] 0), next_ref = 0, domain_data = Map.empty,
      entry_data = Map.empty, tasks = []\<rparr>"

definition polling_hass :: hass where
  "polling_hass =
     \<lparr>store = (\<lambda>_. (ModbusHost_new ''10.0.0.5'' 502)\<lparr>connected := True, subscriber_count := 1\<rparr>),
      next_ref = 1, domain_data = [''10.0.0.5:502'' \<mapsto> 0],
      entry_data = [''entry-a'' \<mapsto> 0], tasks = []\<rparr>"

section \<open>Properties\<close>

subsection \<open>Auxiliary facts: the retry loop\<close>

lemma async_connect_params:
  assumes "async_connect up h = (h1, evs)"
  shows "max_retry_count h1 = max_retry_count h" and "retry_delay h1 = retry_delay h"
    and "subscriber_count h1 = subscriber_count h"
  using assms by (auto simp: async_connect_def split: if_splits)

lemma async_connect_events:
  assumes "async_connect up h = (h1, evs)"
  shows "pacing evs = []" and "requests evs = []"
  using assms by (auto simp: async_connect_def pacing_def requests_def split: if_splits)

lemma requests_pacing: "requests evs = filter is_request (pacing evs)"
  by (induction evs) (auto simp: requests_def pacing_def)

lemma paced_replicate: "paced (Suc m) a w = concat (replicate m [a, w]) @ [a]"
  by (induction m) simp_all

lemma requests_paced:
  "filter is_request (paced n (Request rq) (Sleep d)) = replicate n (Request rq)"
  by (induction n "Request rq" "Sleep d" rule: paced.induct) simp_all

lemma attempt_events_early:
  assumes "int m < max_retry_count h"
  shows "concat (map (attempt_events rq h) [0..<m]) =
         concat (replicate m [Request rq, Sleep (retry_delay h)])"
proof -
  have "map (attempt_events rq h) [0..<m] = map (\<lambda>_. [Request rq, Sleep (retry_delay h)]) [0..<m]"
    using assms by (intro map_cong) (auto simp: attempt_events_def)
  then show ?thesis by (simp add: map_replicate_const)
qed

lemma read_attempts_prefix:
  assumes "\<forall>i\<in>set xs. rejected cnt (on_request tr i)"
  shows "\<exists>h1 evs1. max_retry_count h1 = max_retry_count h \<and> retry_delay h1 = retry_delay h
     \<and> pacing evs1 = concat (map (attempt_events rq h) xs)
     \<and> read_attempts tr rq cnt (xs @ ys) h =
         (case read_attempts tr rq cnt ys h1 of (r, h2, evs2) \<Rightarrow> (r, h2, evs1 @ evs2))"
  using assms
proof (induction xs arbitrary: h)
  case Nil
  show ?case by (rule exI[of _ h], rule exI[of _ "[]"]) (simp add: pacing_def)
next
  case (Cons x xs)
  obtain h1 evs1 where c: "async_connect (on_connect tr x) h = (h1, evs1)"
    by (cases "async_connect (on_connect tr x) h")
  note p = async_connect_params[OF c] and q = async_connect_events[OF c]
  from Cons.prems have rx: "rejected cnt (on_request tr x)" by simp
  then obtain err vals where resp: "on_request tr x = Response err vals"
    and rej: "\<not> (\<not> err \<and> int (length vals) = cnt)"
    by (cases "on_request tr x") auto
  from Cons.prems have "\<forall>i\<in>set xs. rejected cnt (on_request tr i)" by simp
  from Cons.IH[OF this, of h1] obtain h2 evs2 where
    ih: "max_retry_count h2 = max_retry_count h1" "retry_delay h2 = retry_delay h1"
      "pacing evs2 = concat (map (attempt_events rq h1) xs)"
      "read_attempts tr rq cnt (xs @ ys) h1 =
         (case read_attempts tr rq cnt ys h2 of (r, h3, evs3) \<Rightarrow> (r, h3, evs2 @ evs3))"
    by blast
  have same: "attempt_events rq h1 = attempt_events rq h"
    by (rule ext) (simp add: attempt_events_def p)
  let ?evs = "evs1 @ attempt_events rq h x @ evs2"
  have "pacing ?evs = concat (map (attempt_events rq h) (x # xs))"
    using q(1) ih(3) by (simp add: pacing_def same attempt_events_def)
  moreover have "read_attempts tr rq cnt ((x # xs) @ ys) h =
         (case read_attempts tr rq cnt ys h2 of (r, h3, evs3) \<Rightarrow> (r, h3, ?evs @ evs3))"
    using c resp rej ih(4) p
    by (cases "read_attempts tr rq cnt ys h2") (auto simp: attempt_events_def)
  moreover have "max_retry_count h2 = max_retry_count h" "retry_delay h2 = retry_delay h"
    using ih(1,2) p by simp_all
  ultimately show ?case by (intro exI[of _ h2] exI[of _ ?evs]) simp
qed

lemma read_attempts_nonempty:
  assumes "read_attempts tr rq cnt (x # xs) h = (r, h', evs)"
  shows "requests evs \<noteq> []"
proof -
  obtain h1 evs1 where c: "async_connect (on_connect tr x) h = (h1, evs1)"
    by (cases "async_connect (on_connect tr x) h")
  show ?thesis
  proof (cases "on_request tr x")
    case (Raises e)
    with assms c show ?thesis by (auto simp: requests_def)
  next
    case (Response err vals)
    obtain r2 h2 evs3 where rec: "read_attempts tr rq cnt xs h1 = (r2, h2, evs3)"
      by (cases "read_attempts tr rq cnt xs h1")
    with assms c Response show ?thesis by (auto simp: requests_def split: if_splits)
  qed
qed

lemma with_lock_result: "result_of (with_lock body h) = result_of (body h)"
  by (simp add: with_lock_def split: prod.splits)

lemma with_lock_pacing: "pacing (events_of (with_lock body h)) = pacing (events_of (body h))"
  by (simp add: with_lock_def pacing_def split: prod.splits)

lemma with_lock_requests: "requests (events_of (with_lock body h)) = requests (events_of (body h))"
  by (simp add: with_lock_def requests_def split: prod.splits)

lemma retry_loop_exhausted:
  fixes rq :: request
  assumes n: "1 \<le> max_retry_count h"
    and rej: "\<forall>i < nat (max_retry_count h). rejected cnt (on_request tr i)"
  defines "run \<equiv> read_attempts tr rq cnt [0 ..< nat (max_retry_count h)] h"
  shows "result_of run = Inr None"
    and "pacing (events_of run) =
           paced (nat (max_retry_count h)) (Request rq) (Sleep (retry_delay h))"
    and "int (length (requests (events_of run))) = max_retry_count h"
proof -
  obtain m where m: "nat (max_retry_count h) = Suc m"
    using n by (cases "nat (max_retry_count h)") auto
  from rej have "\<forall>i\<in>set [0 ..< nat (max_retry_count h)]. rejected cnt (on_request tr i)"
    by simp
  from read_attempts_prefix[OF this, of h rq "[]"] obtain h1 evs1 where
    pre: "pacing evs1 = concat (map (attempt_events rq h) [0 ..< nat (max_retry_count h)])"
      "run = (Inr None, h1, evs1)"
    unfolding run_def by auto
  show "result_of run = Inr None" using pre(2) by simp
  have last: "attempt_events rq h m = [Request rq]"
    using m by (simp add: attempt_events_def) 
  have "int m < max_retry_count h" using m by linarith
  from attempt_events_early[OF this, of rq]
  show p: "pacing (events_of run) =
           paced (nat (max_retry_count h)) (Request rq) (Sleep (retry_delay h))"
    using pre last unfolding m by (simp add: paced_replicate)
  show "int (length (requests (events_of run))) = max_retry_count h"
    unfolding requests_pacing p requests_paced using n by simp
qed

lemma retry_loop_kth:
  fixes rq :: request
  assumes k: "1 \<le> k" "int k \<le> max_retry_count h"
    and rej: "\<forall>i < k - 1. rejected cnt (on_request tr i)"
    and kth: "on_request tr (k - 1) = Response err vals"
  defines "run \<equiv> read_attempts tr rq cnt [0 ..< nat (max_retry_count h)] h"
  shows "(result_of run = Inr (Some vals) \<and> length (requests (events_of run)) = k)
           \<longleftrightarrow> (\<not> err \<and> int (length vals) = cnt)"
    and "\<not> err \<and> int (length vals) = cnt \<Longrightarrow>
           pacing (events_of run) = paced k (Request rq) (Sleep (retry_delay h))"
proof -
  obtain m where m: "k = Suc m" using k(1) by (cases k) auto
  have split: "[0 ..< nat (max_retry_count h)] = [0 ..< m] @ m # [Suc m ..< nat (max_retry_count h)]"
  proof -
    have lt: "m < nat (max_retry_count h)" using k(2) m by linarith
    then have "[0 ..< nat (max_retry_count h)] = [0 ..< m] @ [m ..< nat (max_retry_count h)]"
      using upt_add_eq_append[of 0 m "nat (max_retry_count h) - m"] by simp
    with lt show ?thesis by (simp add: upt_conv_Cons)
  qed
  from rej m have "\<forall>i\<in>set [0 ..< m]. rejected cnt (on_request tr i)" by simp
  from read_attempts_prefix[OF this, of h rq "m # [Suc m ..< nat (max_retry_count h)]"]
  obtain h1 evs1 where
    pre: "max_retry_count h1 = max_retry_count h" "retry_delay h1 = retry_delay h"
      "pacing evs1 = concat (map (attempt_events rq h) [0 ..< m])"
      "run = (case read_attempts tr rq cnt (m # [Suc m ..< nat (max_retry_count h)]) h1 of
                (r, h2, evs2) \<Rightarrow> (r, h2, evs1 @ evs2))"
    unfolding run_def split by auto
  have "int m < max_retry_count h" using k(2) m by linarith
  note early = attempt_events_early[OF this, of rq]
  have req1: "length (requests evs1) = m"
    unfolding requests_pacing pre(3) early
    by (induction m) simp_all
  obtain h2 evs2 where c: "async_connect (on_connect tr m) h1 = (h2, evs2)"
    by (cases "async_connect (on_connect tr m) h1")
  note q = async_connect_events[OF c]
  from kth m have kth': "on_request tr m = Response err vals" by simp
  show "\<not> err \<and> int (length vals) = cnt \<Longrightarrow>
           pacing (events_of run) = paced k (Request rq) (Sleep (retry_delay h))"
    using pre(3,4) c kth' q early unfolding m
    by (simp add: paced_replicate pacing_def)
  show "(result_of run = Inr (Some vals) \<and> length (requests (events_of run)) = k)
           \<longleftrightarrow> (\<not> err \<and> int (length vals) = cnt)"
  proof (cases "\<not> err \<and> int (length vals) = cnt")
    case True
    then show ?thesis using pre(4) c kth' q req1 unfolding m
      by (simp add: requests_def)
  next
    case False
    obtain r3 h3 evs3 where rec:
      "read_attempts tr rq cnt [Suc m ..< nat (max_retry_count h)] h2 = (r3, h3, evs3)"
      by (cases "read_attempts tr rq cnt [Suc m ..< nat (max_retry_count h)] h2")
    have more: "r3 = Inr (Some vals) \<Longrightarrow> requests evs3 \<noteq> []"
    proof (cases "[Suc m ..< nat (max_retry_count h)]")
      case Nil
      with rec show "r3 = Inr (Some vals) \<Longrightarrow> requests evs3 \<noteq> []" by simp
    next
      case (Cons y ys)
      with rec read_attempts_nonempty show "requests evs3 \<noteq> []" by metis
    qed
    have "result_of run = r3"
      and "length (requests (events_of run)) = Suc m + length (requests evs3)"
      using pre(4) c kth' q req1 False rec by (auto simp: requests_def)
    with more False show ?thesis unfolding m by auto
  qed
qed

subsection \<open>Auxiliary facts: the registry invariants\<close>

lemma registry_wfD:
  assumes "registry_wf hs" and "domain_data hs k = Some r"
  shows "r < next_ref hs" and "domain_data hs k' = Some r \<Longrightarrow> k' = k"
  using assms unfolding registry_wf_def by blast+

lemma registry_wfI:
  assumes "\<And>k r. domain_data hs k = Some r \<Longrightarrow> r < next_ref hs"
    and "\<And>k k' r. domain_data hs k = Some r \<Longrightarrow> domain_data hs k' = Some r \<Longrightarrow> k = k'"
  shows "registry_wf hs"
  using assms unfolding registry_wf_def by blast

lemma registry_okD:
  assumes "registry_ok hs"
  shows "registry_wf hs" and "domain_data hs k = Some r \<Longrightarrow> 0 < subscriber_count (store hs r)"
  using assms unfolding registry_ok_def by blast+

lemma registry_okI:
  assumes "registry_wf hs"
    and "\<And>k r. domain_data hs k = Some r \<Longrightarrow> 0 < subscriber_count (store hs r)"
  shows "registry_ok hs"
  using assms unfolding registry_ok_def by blast

lemma registry_ok_setup: "registry_ok (async_setup hs)"
  by (simp add: registry_ok_def registry_wf_def async_setup_def)

lemma count_at_setup: "count_at (async_setup hs) key = 0"
  by (simp add: count_at_def async_setup_def)

lemma registered_positive:
  assumes "registry_ok hs"
  shows "registered hs key \<longleftrightarrow> 0 < count_at hs key"
  using registry_okD(2)[OF assms, of key]
  by (cases "domain_data hs key") (auto simp: registered_def count_at_def get_subscriber_count_def)

lemma positive_registered: "0 < count_at hs key \<Longrightarrow> registered hs key"
  by (cases "domain_data hs key") (auto simp: registered_def count_at_def)

lemma add_subscriber_count [simp]:
  "subscriber_count (add_subscriber h) = subscriber_count h + 1"
  by (simp add: add_subscriber_def)

lemma new_host_count [simp]: "subscriber_count (ModbusHost_new a p) = 0"
  by (simp add: ModbusHost_new_def ModbusHost_init_def)

text \<open>Setting up an entry.\<close>

lemma setup_entry_fields:
  defines "hs' \<equiv> \<lambda>hs entry. snd (async_setup_entry hs entry)"
  shows "next_ref (hs' hs entry) =
           (if domain_data hs (host_key entry) = None then Suc (next_ref hs) else next_ref hs)"
    and "domain_data (hs' hs entry) k =
           (if k = host_key entry \<and> domain_data hs (host_key entry) = None
            then Some (next_ref hs) else domain_data hs k)"
    and "subscriber_count (store (hs' hs entry) x) =
           (case domain_data hs (host_key entry) of
              None \<Rightarrow> if x = next_ref hs then 1 else subscriber_count (store hs x)
            | Some r \<Rightarrow> if x = r then subscriber_count (store hs r) + 1
                        else subscriber_count (store hs x))"
  unfolding hs'_def
  by (cases "domain_data hs (host_key entry)"; simp add: async_setup_entry_def Let_def)+

lemma setup_entry_wf:
  assumes wf: "registry_wf hs"
  shows "registry_wf (snd (async_setup_entry hs entry))"
proof (rule registry_wfI, goal_cases)
  case (1 k r)
  then show ?case using registry_wfD(1)[OF wf, of k r]
    by (auto simp: setup_entry_fields split: if_splits)
next
  case (2 k k' r)
  have fresh: "domain_data hs j \<noteq> Some (next_ref hs)" for j
    using registry_wfD(1)[OF wf, of j "next_ref hs"] by auto
  from 2 show ?case using registry_wfD(2)[OF wf, of k' r k] fresh
    by (auto simp: setup_entry_fields split: if_splits)
qed

lemma setup_entry_count:
  assumes wf: "registry_wf hs"
  shows "count_at (snd (async_setup_entry hs entry)) key =
         count_at hs key + (if host_key entry = key then 1 else 0)"
proof (cases "domain_data hs (host_key entry)")
  case None
  show ?thesis
  proof (cases "domain_data hs key")
    case none: None
    then show ?thesis using None
      by (simp add: count_at_def get_subscriber_count_def setup_entry_fields)
  next
    case (Some r')
    with None have "host_key entry \<noteq> key" by auto
    moreover have "r' \<noteq> next_ref hs" using registry_wfD(1)[OF wf Some] by simp
    ultimately show ?thesis using Some None
      by (simp add: count_at_def get_subscriber_count_def setup_entry_fields)
  qed
next
  case (Some r)
  show ?thesis
  proof (cases "domain_data hs key")
    case None
    with Some have "host_key entry \<noteq> key" by auto
    then show ?thesis using None Some
      by (simp add: count_at_def get_subscriber_count_def setup_entry_fields)
  next
    case some: (Some r')
    have "r' = r \<longleftrightarrow> host_key entry = key"
      using registry_wfD(2)[OF wf Some, of key] some Some by auto
    then show ?thesis using some Some
      by (auto simp: count_at_def get_subscriber_count_def setup_entry_fields)
  qed
qed

lemma setup_entry_ok:
  assumes ok: "registry_ok hs"
  shows "registry_ok (snd (async_setup_entry hs entry))"
proof (rule registry_okI)
  show "registry_wf (snd (async_setup_entry hs entry))"
    by (rule setup_entry_wf[OF registry_okD(1)[OF ok]])
next
  fix k r assume r: "domain_data (snd (async_setup_entry hs entry)) k = Some r"
  note wf = registry_okD(1)[OF ok]
  show "0 < subscriber_count (store (snd (async_setup_entry hs entry)) r)"
  proof (cases "domain_data hs (host_key entry)")
    case None
    show ?thesis
    proof (cases "k = host_key entry")
      case True
      with r None show ?thesis by (simp add: setup_entry_fields)
    next
      case False
      with r have old: "domain_data hs k = Some r" by (simp add: setup_entry_fields)
      then have "r \<noteq> next_ref hs" using registry_wfD(1)[OF wf old] by simp
      then show ?thesis using None registry_okD(2)[OF ok old] by (simp add: setup_entry_fields)
    qed
  next
    case (Some r0)
    with r have old: "domain_data hs k = Some r" by (simp add: setup_entry_fields)
    show ?thesis using Some registry_okD(2)[OF ok old] registry_okD(2)[OF ok Some]
      by (simp add: setup_entry_fields)
  qed
qed

text \<open>Unloading an entry.\<close>

lemma unload_entry_skip:
  "fst (snd (async_unload_entry hs entry False closing)) = hs"
  "domain_data hs (host_key entry) = None \<Longrightarrow>
     fst (snd (async_unload_entry hs entry ok closing)) = hs"
  by (cases ok, simp_all add: async_unload_entry_def Let_def)

lemma unload_entry_fields:
  fixes closing :: "exn option"
  assumes "domain_data hs (host_key entry) = Some r"
  defines "hs' \<equiv> fst (snd (async_unload_entry hs entry True closing))"
  shows "next_ref hs' = next_ref hs"
    and "subscriber_count (store hs' x) =
           (if x = r then subscriber_count (store hs r) - 1 else subscriber_count (store hs x))"
    and "domain_data hs' k =
           (if k = host_key entry \<and> subscriber_count (store hs r) = 1
               \<and> (connected (store hs r) \<longrightarrow> closing = None)
            then None else domain_data hs k)"
    and "subscriber_count (store hs r) = 1 \<Longrightarrow> \<not> connected (store hs' r)"
  using assms(1) unfolding hs'_def
  by (auto simp: async_unload_entry_def remove_subscriber_def get_subscriber_count_def
        async_disconnect_def Let_def split: option.splits)

lemma unload_entry_result:
  assumes "domain_data hs (host_key entry) = Some r" and "subscriber_count (store hs r) = 1"
  shows "snd (snd (async_unload_entry hs entry True closing)) =
           (if connected (store hs r) then [Close] else [])"
    and "connected (store hs r) \<Longrightarrow>
           fst (async_unload_entry hs entry True (Some e)) = Inl e"
  using assms
  by (auto simp: async_unload_entry_def remove_subscriber_def get_subscriber_count_def
        async_disconnect_def Let_def split: option.splits)

lemma unload_entry_wf:
  assumes wf: "registry_wf hs"
  shows "registry_wf (fst (snd (async_unload_entry hs entry unload_ok closing)))"
proof (cases "unload_ok \<and> domain_data hs (host_key entry) \<noteq> None")
  case False
  then show ?thesis using wf by (auto simp: unload_entry_skip)
next
  case True
  then obtain r where r: "domain_data hs (host_key entry) = Some r" and u: "unload_ok = True"
    by auto
  note f = unload_entry_fields[OF r, where closing = closing]
  show ?thesis unfolding u
  proof (rule registry_wfI, goal_cases)
    case (1 k r')
    then show ?case using registry_wfD(1)[OF wf, of k r'] by (auto simp: f split: if_splits)
  next
    case (2 k k' r')
    then show ?case using registry_wfD(2)[OF wf, of k' r' k] by (auto simp: f split: if_splits)
  qed
qed

lemma unload_entry_count:
  assumes wf: "registry_wf hs"
  shows "count_at (fst (snd (async_unload_entry hs entry unload_ok closing))) key =
         count_at hs key -
           (if unload_ok \<and> host_key entry = key \<and> registered hs key then 1 else 0)"
proof (cases "unload_ok \<and> domain_data hs (host_key entry) \<noteq> None")
  case False
  then show ?thesis by (auto simp: unload_entry_skip registered_def)
next
  case True
  then obtain r where r: "domain_data hs (host_key entry) = Some r" and u: "unload_ok = True"
    by auto
  note f = unload_entry_fields[OF r, where closing = closing]
  show ?thesis
  proof (cases "host_key entry = key")
    case same: True
    with r have rk: "domain_data hs key = Some r" by simp
    show ?thesis unfolding u using same rk
      by (simp add: count_at_def get_subscriber_count_def registered_def f)
  next
    case other: False
    show ?thesis
    proof (cases "domain_data hs key")
      case None
      then show ?thesis unfolding u using other
        by (simp add: count_at_def f)
    next
      case (Some r')
      have "r' \<noteq> r" using registry_wfD(2)[OF wf r, of key] Some other by auto
      then show ?thesis unfolding u using other Some
        by (simp add: count_at_def get_subscriber_count_def f)
    qed
  qed
qed

lemma unload_entry_ok:
  assumes ok: "registry_ok hs"
  shows "registry_ok (fst (snd (async_unload_entry hs entry unload_ok None)))"
proof (cases "unload_ok \<and> domain_data hs (host_key entry) \<noteq> None")
  case False
  then show ?thesis using ok by (auto simp: unload_entry_skip)
next
  case True
  then obtain r where r: "domain_data hs (host_key entry) = Some r" and u: "unload_ok = True"
    by auto
  note wf = registry_okD(1)[OF ok]
  note f = unload_entry_fields[OF r, where closing = None]
  show ?thesis unfolding u
  proof (rule registry_okI)
    show "registry_wf (fst (snd (async_unload_entry hs entry True None)))"
      by (rule unload_entry_wf[OF wf])
  next
    fix k r'
    assume a: "domain_data (fst (snd (async_unload_entry hs entry True None))) k = Some r'"
    then have old: "domain_data hs k = Some r'"
      and keep: "\<not> (k = host_key entry \<and> subscriber_count (store hs r) = 1)"
      by (auto simp: f split: if_splits)
    show "0 < subscriber_count (store (fst (snd (async_unload_entry hs entry True None))) r')"
    proof (cases "r' = r")
      case True
      with old have "k = host_key entry" using registry_wfD(2)[OF wf r, of k] by simp
      with keep have "subscriber_count (store hs r) \<noteq> 1" by simp
      with registry_okD(2)[OF ok r] True show ?thesis by (simp add: f)
    next
      case False
      with registry_okD(2)[OF ok old] show ?thesis by (simp add: f)
    qed
  qed
qed

text \<open>Tasks and reads change nothing but the connection of a host.\<close>

lemma run_task_fields:
  "domain_data (fst (run_task closing hs)) = domain_data hs"
  "next_ref (fst (run_task closing hs)) = next_ref hs"
  "subscriber_count (store (fst (run_task closing hs)) x) = subscriber_count (store hs x)"
  by (auto simp: run_task_def async_disconnect_def split: list.splits)

lemma read_attempts_count:
  assumes "read_attempts tr rq cnt xs h = (r, h', evs)"
  shows "subscriber_count h' = subscriber_count h"
  using assms
proof (induction xs arbitrary: h r h' evs)
  case Nil
  then show ?case by simp
next
  case (Cons x xs)
  obtain h1 evs1 where c: "async_connect (on_connect tr x) h = (h1, evs1)"
    by (cases "async_connect (on_connect tr x) h")
  note p = async_connect_params(3)[OF c]
  show ?case
  proof (cases "on_request tr x")
    case (Raises e)
    with Cons.prems c p show ?thesis by auto
  next
    case (Response err vals)
    show ?thesis
    proof (cases "\<not> err \<and> int (length vals) = cnt")
      case True
      with Cons.prems c p Response show ?thesis by auto
    next
      case False
      obtain r2 h2 evs3 where rec: "read_attempts tr rq cnt xs h1 = (r2, h2, evs3)"
        by (cases "read_attempts tr rq cnt xs h1")
      from Cons.prems c Response False rec have "h' = h2" by auto
      with Cons.IH[OF rec] p show ?thesis by simp
    qed
  qed
qed

lemma read_input_count:
  "subscriber_count (fst (snd (async_read_input_registers tr h unit_id address cnt)))
     = subscriber_count h"
proof -
  obtain r h' evs where run:
    "read_attempts tr (ReadInputRegisters address cnt unit_id) cnt
       [0 ..< nat (max_retry_count h)] h = (r, h', evs)"
    by (cases "read_attempts tr (ReadInputRegisters address cnt unit_id) cnt
       [0 ..< nat (max_retry_count h)] h")
  from read_attempts_count[OF run] run show ?thesis
    by (simp add: async_read_input_registers_def with_lock_def)
qed

lemma entity_read_fields:
  "domain_data (fst (snd (entity_read hs entry tr unit_id address cnt))) = domain_data hs"
  "next_ref (fst (snd (entity_read hs entry tr unit_id address cnt))) = next_ref hs"
  "subscriber_count (store (fst (snd (entity_read hs entry tr unit_id address cnt))) x)
     = subscriber_count (store hs x)"
  using read_input_count[of tr _ unit_id address cnt]
  by (auto simp: entity_read_def split: option.splits prod.splits)
     (metis fst_conv snd_conv)+

text \<open>Histories.\<close>

lemma step_wf: "registry_wf hs \<Longrightarrow> registry_wf (step hs c)"
proof (cases c)
  case (SetupEntry entry)
  assume "registry_wf hs"
  then show ?thesis using SetupEntry by (simp add: setup_entry_wf)
next
  case (UnloadEntry entry unload_ok closing)
  assume "registry_wf hs"
  then show ?thesis using UnloadEntry by (simp add: unload_entry_wf)
next
  case (RunTask closing)
  assume "registry_wf hs"
  then show ?thesis using RunTask
    by (simp add: registry_wf_def run_task_fields)
next
  case (EntityRead entry tr unit_id address cnt)
  assume "registry_wf hs"
  then show ?thesis using EntityRead
    by (simp add: registry_wf_def entity_read_fields)
qed

lemma step_ok: "registry_ok hs \<Longrightarrow> quiet c \<Longrightarrow> registry_ok (step hs c)"
proof (cases c)
  case (SetupEntry entry)
  assume "registry_ok hs"
  then show ?thesis using SetupEntry by (simp add: setup_entry_ok)
next
  case (UnloadEntry entry unload_ok closing)
  assume "registry_ok hs" "quiet c"
  then show ?thesis using UnloadEntry by (simp add: unload_entry_ok)
next
  case (RunTask closing)
  assume "registry_ok hs"
  then show ?thesis using RunTask
    by (simp add: registry_ok_def registry_wf_def run_task_fields)
next
  case (EntityRead entry tr unit_id address cnt)
  assume "registry_ok hs"
  then show ?thesis using EntityRead
    by (simp add: registry_ok_def registry_wf_def entity_read_fields)
qed

lemma step_count:
  assumes "registry_wf hs"
  shows "count_at (step hs c) key =
     count_at hs key + (if is_acquire key c then 1 else 0)
       - (if is_release key c \<and> registered hs key then 1 else 0)"
proof (cases c)
  case (SetupEntry entry)
  then show ?thesis using assms by (simp add: setup_entry_count)
next
  case (UnloadEntry entry unload_ok closing)
  then show ?thesis using assms by (simp add: unload_entry_count)
next
  case (RunTask closing)
  then show ?thesis
    by (cases "domain_data hs key")
       (simp_all add: count_at_def get_subscriber_count_def run_task_fields)
next
  case (EntityRead entry tr unit_id address cnt)
  then show ?thesis
    by (cases "domain_data hs key")
       (simp_all add: count_at_def get_subscriber_count_def entity_read_fields)
qed

lemma run_calls_snoc: "run_calls hs (calls @ [c]) = step (run_calls hs calls) c"
  by (simp add: run_calls_def)

lemma run_calls_wf: "registry_wf hs \<Longrightarrow> registry_wf (run_calls hs calls)"
  by (induction calls rule: rev_induct) (simp_all add: run_calls_def step_wf)

lemma run_calls_ok: "registry_ok hs \<Longrightarrow> list_all quiet calls \<Longrightarrow> registry_ok (run_calls hs calls)"
  by (induction calls rule: rev_induct) (simp_all add: run_calls_def step_ok)

lemma acquires_snoc:
  "acquires key (calls @ [c]) = acquires key calls + (if is_acquire key c then 1 else 0)"
  by (simp add: acquires_def)

lemma releases_snoc:
  "releases key (calls @ [c]) = releases key calls + (if is_release key c then 1 else 0)"
  by (simp add: releases_def)

lemma acquire_not_release: "is_release key c \<Longrightarrow> \<not> is_acquire key c"
  by (cases c) simp_all

lemma matched_snoc:
  "matched key (calls @ [c]) \<longleftrightarrow>
     matched key calls \<and> releases key (calls @ [c]) \<le> acquires key (calls @ [c])"
  by (simp add: matched_def)

lemma run_calls_count:
  assumes "matched key calls"
  shows "count_at (run_calls (async_setup hs) calls) key =
     int (acquires key calls) - int (releases key calls)"
  using assms
proof (induction calls rule: rev_induct)
  case Nil
  show ?case by (simp add: run_calls_def count_at_setup acquires_def releases_def)
next
  case (snoc c calls)
  let ?hs = "run_calls (async_setup hs) calls"
  from snoc.prems have m: "matched key calls"
    and le: "releases key (calls @ [c]) \<le> acquires key (calls @ [c])"
    by (simp_all add: matched_snoc)
  note ih = snoc.IH[OF m]
  have wf: "registry_wf ?hs"
    by (rule run_calls_wf[OF registry_okD(1)[OF registry_ok_setup]])
  show ?case
  proof (cases "is_release key c")
    case True
    then have na: "\<not> is_acquire key c" by (rule acquire_not_release)
    from le True na have "releases key calls < acquires key calls"
      by (simp add: acquires_snoc releases_snoc)
    with ih have "0 < count_at ?hs key" by simp
    then have "registered ?hs key" by (rule positive_registered)
    then show ?thesis
      unfolding run_calls_snoc step_count[OF wf] ih
      using True na by (simp add: acquires_snoc releases_snoc)
  next
    case False
    then show ?thesis
      unfolding run_calls_snoc step_count[OF wf] ih
      by (simp add: acquires_snoc releases_snoc)
  qed
qed

lemma matched_nonneg: "matched key calls \<Longrightarrow> releases key calls \<le> acquires key calls"
  by (induction calls rule: rev_induct) (simp_all add: matched_def)

lemma example_keys:
  "host_key entry_a = ''10.0.0.5:502''" "host_key entry_b = ''10.0.0.5:502''"
  by (simp_all add: host_key_def str_int_def digits.simps entry_a_def entry_b_def)

lemma example_entry_fields:
  "entry_id entry_a = ''entry-a''" "conf_host entry_a = ''10.0.0.5''" "conf_port entry_a = 502"
  by (simp_all add: entry_a_def)

text \<open>
  What holds of the registry whatever \<^verbatim>\<open>close()\<close> does: on a matched history
  the count of a key is the number of its acquires minus that of its releases,
  and so not negative.
\<close>

lemma count_balance_matched:
  assumes "matched key calls"
  shows "count_at (run_calls (async_setup hs) calls) key
           = int (acquires key calls) - int (releases key calls)"
    and "0 \<le> count_at (run_calls (async_setup hs) calls) key"
  using run_calls_count[OF assms, of hs] matched_nonneg[OF assms] by simp_all

text \<open>
  What holds when no \<^verbatim>\<open>await\<close> of \<^verbatim>\<open>close()\<close> raises: a host is registered if and
  only if its count is positive, and the last release removes the entry.
\<close>

lemma registered_iff_positive_quiet:
  assumes "list_all quiet calls"
  shows "registered (run_calls (async_setup hs) calls) key
           \<longleftrightarrow> 0 < count_at (run_calls (async_setup hs) calls) key"
  by (rule registered_positive[OF run_calls_ok[OF registry_ok_setup assms]])

lemma last_release_removes_entry:
  assumes "domain_data hs (host_key entry) = Some r" and "subscriber_count (store hs r) = 1"
    and "connected (store hs r) \<longrightarrow> closing = None"
  shows "\<not> registered (fst (snd (async_unload_entry hs entry True closing))) (host_key entry)"
    and "\<not> connected (store (fst (snd (async_unload_entry hs entry True closing))) r)"
    and "snd (snd (async_unload_entry hs entry True closing))
           = (if connected (store hs r) then [Close] else [])"
  using assms(2,3)
  by (simp_all add: registered_def unload_entry_fields[OF assms(1)]
        unload_entry_result[OF assms(1,2)])

lemma two_acquires_one_release:
  fixes closing :: "exn option"
  assumes "host_key e1 = key" and "host_key e2 = key" and "host_key e3 = key"
  defines "calls \<equiv> [SetupEntry e1, SetupEntry e2, UnloadEntry e3 True closing]"
  shows "registered (run_calls (async_setup hs) calls) key"
    and "count_at (run_calls (async_setup hs) calls) key = 1"
proof -
  have m: "matched key calls"
    using assms(1-3) by (simp add: calls_def matched_def acquires_def releases_def)
  show c: "count_at (run_calls (async_setup hs) calls) key = 1"
    using run_calls_count[OF m, of hs] assms(1-3)
    by (simp add: calls_def acquires_def releases_def)
  show "registered (run_calls (async_setup hs) calls) key"
    using positive_registered[of "run_calls (async_setup hs) calls" key] c by simp
qed

subsection \<open>Auxiliary facts: single attempts and exceptions\<close>

lemma with_lock_last: "last (events_of (with_lock body h)) = LockRelease"
  by (simp add: with_lock_def split: prod.splits)

lemma write_once_result:
  "result_of (write_once tr rq h) =
     (case on_request tr 0 of
        Raises e \<Rightarrow> Inr (Some False)
      | Response err vals \<Rightarrow> if err then Inr None else Inr (Some True))"
  by (simp add: write_once_def write_handlers_def split: prod.splits outcome.splits)

lemma write_once_pacing: "pacing (events_of (write_once tr rq h)) = [Request rq]"
  by (auto simp: write_once_def pacing_def async_connect_def split: prod.splits outcome.splits)

lemma read_coil_result:
  "result_of (async_read_coil tr h unit_id address) =
     (case on_request tr 0 of
        Raises e \<Rightarrow> Inl e
      | Response err bits \<Rightarrow>
          if err then Inr None
          else (case bits of [] \<Rightarrow> Inl IndexError | b # _ \<Rightarrow> Inr (Some b)))"
  by (simp add: async_read_coil_def with_lock_def split: prod.splits outcome.splits)

lemma read_coil_pacing:
  "pacing (events_of (async_read_coil tr h unit_id address)) =
     [Request (ReadCoils address 1 unit_id)]"
  by (auto simp: async_read_coil_def with_lock_def pacing_def async_connect_def
        split: prod.splits outcome.splits)

lemma read_attempts_sound:
  assumes "read_attempts tr rq cnt xs h = (r, h', evs)"
  shows "(\<forall>vals. r = Inr (Some vals) \<longrightarrow> int (length vals) = cnt)
       \<and> (\<forall>e. r = Inl e \<longrightarrow> (\<exists>i\<in>set xs. on_request tr i = Raises e))"
  using assms
proof (induction xs arbitrary: h r h' evs)
  case Nil
  then show ?case by auto
next
  case (Cons x xs)
  obtain h1 evs1 where c: "async_connect (on_connect tr x) h = (h1, evs1)"
    by (cases "async_connect (on_connect tr x) h")
  show ?case
  proof (cases "on_request tr x")
    case (Raises e)
    with Cons.prems c show ?thesis by auto
  next
    case (Response err vals)
    show ?thesis
    proof (cases "\<not> err \<and> int (length vals) = cnt")
      case True
      with Cons.prems c Response show ?thesis by auto
    next
      case False
      obtain r2 h2 evs3 where rec: "read_attempts tr rq cnt xs h1 = (r2, h2, evs3)"
        by (cases "read_attempts tr rq cnt xs h1")
      from Cons.prems c Response False rec have "r = r2" by auto
      with Cons.IH[OF rec] show ?thesis by auto
    qed
  qed
qed

lemma retry_loop_sound:
  fixes rq :: request and tr :: "'v transport" and cnt :: int and h :: ModbusHost
  defines "run \<equiv> read_attempts tr rq cnt [0 ..< nat (max_retry_count h)] h"
  shows "result_of run = Inr (Some vals) \<Longrightarrow> int (length vals) = cnt"
    and "result_of run = Inl e \<Longrightarrow> \<exists>i. on_request tr i = Raises e"
proof -
  obtain r h' evs where run: "run = (r, h', evs)" by (cases run)
  note s = read_attempts_sound[OF run[unfolded run_def]]
  show "result_of run = Inr (Some vals) \<Longrightarrow> int (length vals) = cnt"
    using s run by simp
  show "result_of run = Inl e \<Longrightarrow> \<exists>i. on_request tr i = Raises e"
    using s run by auto
qed

lemma retry_loop_raises:
  fixes rq :: request
  assumes k: "1 \<le> k" "int k \<le> max_retry_count h"
    and rej: "\<forall>i < k - 1. rejected cnt (on_request tr i)"
    and kth: "on_request tr (k - 1) = Raises e"
  defines "run \<equiv> read_attempts tr rq cnt [0 ..< nat (max_retry_count h)] h"
  shows "result_of run = Inl e" and "length (requests (events_of run)) = k"
proof -
  obtain m where m: "k = Suc m" using k(1) by (cases k) auto
  have split: "[0 ..< nat (max_retry_count h)] = [0 ..< m] @ m # [Suc m ..< nat (max_retry_count h)]"
  proof -
    have lt: "m < nat (max_retry_count h)" using k(2) m by linarith
    then have "[0 ..< nat (max_retry_count h)] = [0 ..< m] @ [m ..< nat (max_retry_count h)]"
      using upt_add_eq_append[of 0 m "nat (max_retry_count h) - m"] by simp
    with lt show ?thesis by (simp add: upt_conv_Cons)
  qed
  from rej m have "\<forall>i\<in>set [0 ..< m]. rejected cnt (on_request tr i)" by simp
  from read_attempts_prefix[OF this, of h rq "m # [Suc m ..< nat (max_retry_count h)]"]
  obtain h1 evs1 where
    pre: "pacing evs1 = concat (map (attempt_events rq h) [0 ..< m])"
      "run = (case read_attempts tr rq cnt (m # [Suc m ..< nat (max_retry_count h)]) h1 of
                (r, h2, evs2) \<Rightarrow> (r, h2, evs1 @ evs2))"
    unfolding run_def split by auto
  have "int m < max_retry_count h" using k(2) m by linarith
  note early = attempt_events_early[OF this, of rq]
  have req1: "length (requests evs1) = m"
    unfolding requests_pacing pre(1) early
    by (induction m) simp_all
  obtain h2 evs2 where c: "async_connect (on_connect tr m) h1 = (h2, evs2)"
    by (cases "async_connect (on_connect tr m) h1")
  note q = async_connect_events[OF c]
  from kth m have kth': "on_request tr m = Raises e" by simp
  show "result_of run = Inl e" using pre(2) c kth' by simp
  show "length (requests (events_of run)) = k"
    using pre(2) c kth' q req1 unfolding m by (simp add: requests_def)
qed

subsection \<open>Connection management\<close>

text \<open>
  Claim C8. \<^verbatim>\<open>async_connect\<close> does nothing on a connected client and otherwise
  issues one \<^verbatim>\<open>connect()\<close>, after which the client is connected if the call
  established the link; \<^verbatim>\<open>async_disconnect\<close> does nothing on a disconnected
  client and otherwise closes it. A second \<^verbatim>\<open>async_connect\<close> leaves the same
  connected state as the first, and issues no call once the link is up; a
  second \<^verbatim>\<open>async_disconnect\<close> is always a no-op. The client is closed whether
  the \<^verbatim>\<open>await\<close> of \<^verbatim>\<open>close()\<close> returns or raises.
\<close>

theorem connect_disconnect_idempotent:
  "(connected h \<longrightarrow> async_connect up h = (h, []))
   \<and> (\<not> connected h \<longrightarrow> async_connect up h = (h\<lparr>connected := up\<rparr>, [Connect]))
   \<and> connected (fst (async_connect up (fst (async_connect up h))))
         = connected (fst (async_connect up h))
   \<and> async_connect up' (fst (async_connect True h)) = (fst (async_connect True h), [])
   \<and> (\<not> connected h \<longrightarrow> async_disconnect closing h = (Inr (), h, []))
   \<and> (connected h \<longrightarrow>
        async_disconnect closing h =
          (case closing of None \<Rightarrow> Inr () | Some e \<Rightarrow> Inl e,
           h\<lparr>connected := False\<rparr>, [Close]))
   \<and> async_disconnect closing' (fst (snd (async_disconnect closing h)))
         = (Inr (), fst (snd (async_disconnect closing h)), [])"
  by (simp add: async_connect_def async_disconnect_def)

theorem connect_disconnect_idempotent_witness:
  "async_connect True example_host = (example_host\<lparr>connected := True\<rparr>, [Connect])
   \<and> async_disconnect None example_host = (Inr (), example_host, [])
   \<and> async_connect True (example_host\<lparr>connected := True\<rparr>)
         = (example_host\<lparr>connected := True\<rparr>, [])
   \<and> async_disconnect None (example_host\<lparr>connected := True\<rparr>)
         = (Inr (), example_host\<lparr>connected := False\<rparr>, [Close])
   \<and> async_disconnect (Some TypeError) (example_host\<lparr>connected := True\<rparr>)
         = (Inl TypeError, example_host\<lparr>connected := False\<rparr>, [Close])"
  using connect_disconnect_idempotent [of example_host True True None None]
    connect_disconnect_idempotent [of "example_host\<lparr>connected := True\<rparr>" True True None None]
    connect_disconnect_idempotent
      [of "example_host\<lparr>connected := True\<rparr>" True True "Some TypeError" None]
  by (simp add: example_host_def ModbusHost_init_def)

subsection \<open>The retry policy of the multi-value reads\<close>

text \<open>
  Claim C1. With \<^verbatim>\<open>max_retries\<close> at least 1, if every attempt of
  \<^verbatim>\<open>async_read_holding_registers\<close>, \<^verbatim>\<open>async_read_input_registers\<close> or
  \<^verbatim>\<open>async_read_coils\<close> gets a response that is rejected, the operation returns
  \<^verbatim>\<open>None\<close>, has issued exactly \<^verbatim>\<open>max_retries\<close> requests, and has slept exactly
  once, for the fixed \<^verbatim>\<open>retry_delay\<close>, between each two consecutive requests.
\<close>

theorem retries_exhausted:
  assumes "1 \<le> max_retry_count h"
    and "\<forall>i < nat (max_retry_count h). rejected cnt (on_request tr i)"
    and "\<forall>i < nat (max_retry_count h). rejected cnt (on_request trc i)"
  shows "result_of (async_read_holding_registers tr h unit_id address cnt) = Inr None
     \<and> pacing (events_of (async_read_holding_registers tr h unit_id address cnt)) =
         paced (nat (max_retry_count h)) (Request (ReadHoldingRegisters address cnt unit_id))
           (Sleep (retry_delay h))
     \<and> int (length (requests (events_of (async_read_holding_registers tr h unit_id address cnt))))
         = max_retry_count h
     \<and> result_of (async_read_input_registers tr h unit_id address cnt) = Inr None
     \<and> pacing (events_of (async_read_input_registers tr h unit_id address cnt)) =
         paced (nat (max_retry_count h)) (Request (ReadInputRegisters address cnt unit_id))
           (Sleep (retry_delay h))
     \<and> int (length (requests (events_of (async_read_input_registers tr h unit_id address cnt))))
         = max_retry_count h
     \<and> result_of (async_read_coils trc h unit_id address cnt) = Inr None
     \<and> pacing (events_of (async_read_coils trc h unit_id address cnt)) =
         paced (nat (max_retry_count h)) (Request (ReadCoils address cnt unit_id))
           (Sleep (retry_delay h))
     \<and> int (length (requests (events_of (async_read_coils trc h unit_id address cnt))))
         = max_retry_count h"
  unfolding async_read_holding_registers_def async_read_input_registers_def async_read_coils_def
    with_lock_result with_lock_pacing with_lock_requests
  using retry_loop_exhausted[OF assms(1,2)] retry_loop_exhausted[OF assms(1,3)]
  by simp

theorem retries_exhausted_witness:
  "result_of (async_read_input_registers always_error example_host 1 8 1) = Inr None
   \<and> events_of (async_read_input_registers always_error example_host 1 8 1) =
       [LockAcquire, Connect, Request (ReadInputRegisters 8 1 1), Sleep 0,
        Request (ReadInputRegisters 8 1 1), Sleep 0, Request (ReadInputRegisters 8 1 1),
        LockRelease]
   \<and> pacing (events_of (async_read_input_registers always_error example_host 1 8 1)) =
       [Request (ReadInputRegisters 8 1 1), Sleep 0, Request (ReadInputRegisters 8 1 1),
        Sleep 0, Request (ReadInputRegisters 8 1 1)]
   \<and> length (requests (events_of (async_read_coils always_error example_host 1 8 1))) = 3"
proof -
  have n: "1 \<le> max_retry_count example_host"
    by (simp add: example_host_def ModbusHost_init_def)
  have r: "\<forall>i < nat (max_retry_count example_host). rejected 1 (on_request (always_error :: int transport) i)"
    by (simp add: always_error_def)
  have rc: "\<forall>i < nat (max_retry_count example_host). rejected 1 (on_request (always_error :: bool transport) i)"
    by (simp add: always_error_def)
  have three: "nat (max_retry_count example_host) = Suc (Suc (Suc 0))"
    by (simp add: example_host_def ModbusHost_init_def)
  have d: "retry_delay example_host = 0"
    by (simp add: example_host_def ModbusHost_init_def)
  have ev: "events_of (async_read_input_registers always_error example_host 1 8 1) =
       [LockAcquire, Connect, Request (ReadInputRegisters 8 1 1), Sleep 0,
        Request (ReadInputRegisters 8 1 1), Sleep 0, Request (ReadInputRegisters 8 1 1),
        LockRelease]"
    by (simp add: async_read_input_registers_def with_lock_def example_host_def
          ModbusHost_init_def always_error_def async_connect_def upt_conv_Cons)
  have m: "max_retry_count example_host = 3"
    by (simp add: example_host_def ModbusHost_init_def)
  from retries_exhausted[OF n r rc, of 1 8] show ?thesis
    unfolding three d using ev m by simp
qed

text \<open>
  Claim C2. In the three multi-value reads a response is accepted exactly when
  its error flag is not set and it holds as many values as were asked for; the
  accepted values are returned at once. If the first \<open>k - 1\<close> attempts are
  rejected, the operation returns the values of the \<open>k\<close>-th response after
  exactly \<open>k\<close> requests if and only if that response passes the test, and
  then it has slept \<open>k - 1\<close> times.
\<close>

theorem accepted_at_kth_attempt:
  assumes "1 \<le> k" and "int k \<le> max_retry_count h"
    and "\<forall>i < k - 1. rejected cnt (on_request tr i)"
    and "on_request tr (k - 1) = Response err vals"
    and "\<forall>i < k - 1. rejected cnt (on_request trc i)"
    and "on_request trc (k - 1) = Response errc bits"
  shows "((result_of (async_read_holding_registers tr h unit_id address cnt) = Inr (Some vals)
           \<and> length (requests (events_of (async_read_holding_registers tr h unit_id address cnt))) = k)
          \<longleftrightarrow> (\<not> err \<and> int (length vals) = cnt))
     \<and> ((result_of (async_read_input_registers tr h unit_id address cnt) = Inr (Some vals)
           \<and> length (requests (events_of (async_read_input_registers tr h unit_id address cnt))) = k)
          \<longleftrightarrow> (\<not> err \<and> int (length vals) = cnt))
     \<and> ((result_of (async_read_coils trc h unit_id address cnt) = Inr (Some bits)
           \<and> length (requests (events_of (async_read_coils trc h unit_id address cnt))) = k)
          \<longleftrightarrow> (\<not> errc \<and> int (length bits) = cnt))
     \<and> (\<not> err \<and> int (length vals) = cnt \<longrightarrow>
          pacing (events_of (async_read_holding_registers tr h unit_id address cnt)) =
            paced k (Request (ReadHoldingRegisters address cnt unit_id)) (Sleep (retry_delay h))
          \<and> pacing (events_of (async_read_input_registers tr h unit_id address cnt)) =
            paced k (Request (ReadInputRegisters address cnt unit_id)) (Sleep (retry_delay h)))
     \<and> (\<not> errc \<and> int (length bits) = cnt \<longrightarrow>
          pacing (events_of (async_read_coils trc h unit_id address cnt)) =
            paced k (Request (ReadCoils address cnt unit_id)) (Sleep (retry_delay h)))"
  unfolding async_read_holding_registers_def async_read_input_registers_def async_read_coils_def
    with_lock_result with_lock_pacing with_lock_requests
  using retry_loop_kth[OF assms(1,2,3,4)] retry_loop_kth[OF assms(1,2,5,6)]
  by blast

theorem accepted_at_kth_attempt_witness:
  "result_of (async_read_holding_registers third_time example_host 1 4 1) = Inr (Some [42])
   \<and> length (requests (events_of (async_read_holding_registers third_time example_host 1 4 1))) = 3
   \<and> result_of (async_read_coils third_time_coils example_host 1 4 1) = Inr (Some [True])
   \<and> pacing (events_of (async_read_holding_registers third_time example_host 1 4 1)) =
       [Request (ReadHoldingRegisters 4 1 1), Sleep 0, Request (ReadHoldingRegisters 4 1 1),
        Sleep 0, Request (ReadHoldingRegisters 4 1 1)]"
proof -
  have k: "1 \<le> (3::nat)" "int 3 \<le> max_retry_count example_host"
    by (simp_all add: example_host_def ModbusHost_init_def)
  have r: "\<forall>i < 3 - 1. rejected 1 (on_request third_time i)"
    and rc: "\<forall>i < 3 - 1. rejected 1 (on_request third_time_coils i)"
    by (simp_all add: third_time_def third_time_coils_def)
  have a: "on_request third_time (3 - 1) = Response False [42]"
    and ac: "on_request third_time_coils (3 - 1) = Response False [True]"
    by (simp_all add: third_time_def third_time_coils_def)
  have d: "retry_delay example_host = 0"
    by (simp add: example_host_def ModbusHost_init_def)
  have p: "paced 3 a w = [a, w, a, w, a]" for a w :: event
    by (simp add: numeral_3_eq_3)
  from accepted_at_kth_attempt[OF k r a rc ac, of 1 4] show ?thesis
    unfolding d p by simp
qed

subsection \<open>Write operations\<close>

text \<open>
  Claim C3. A write makes one request and no retry, returns \<^verbatim>\<open>True\<close> for a
  response without error flag and \<^verbatim>\<open>False\<close> when the client call raises
  (\<open>write_once_result\<close>, \<open>write_once_pacing\<close>). For a response that carries
  the error flag, however, both write operations log the error and run off
  the end of the function: the result is Python's \<^verbatim>\<open>None\<close>, not \<^verbatim>\<open>False\<close>,
  although \<^verbatim>\<open>async_write_register\<close> is annotated \<^verbatim>\<open>-> bool\<close> and every
  \<^verbatim>\<open>except\<close> clause beside it returns \<^verbatim>\<open>False\<close>.
\<close>

theorem write_protocol_error_returns_None:
  "result_of (async_write_register (always_error :: int transport) example_host 1 12 250)
     = Inr None
   \<and> result_of (async_write_coil (always_error :: int transport) example_host 1 12 True)
     = Inr None
   \<and> requests (events_of
        (async_write_register (always_error :: int transport) example_host 1 12 250))
     = [Request (WriteRegister 12 250 1)]"
  by (simp add: async_write_register_def async_write_coil_def with_lock_result
        write_once_result requests_pacing with_lock_pacing write_once_pacing always_error_def)

subsection \<open>Exceptions of the client\<close>

text \<open>
  Claim C4, as the code has it. The write operations never let an exception
  escape: when the client call raises, the result is \<^verbatim>\<open>False\<close>. The read
  operations have no \<^verbatim>\<open>try\<close>: if the attempts before the \<open>k\<close>-th are rejected
  and the client call of the \<open>k\<close>-th attempt raises, the exception reaches
  the caller, after \<open>k\<close> requests and with the lock released;
  \<^verbatim>\<open>async_read_coil\<close> passes on an exception of its one call in the same way.
\<close>

theorem exceptions_caught_by_writes_only:
  assumes "1 \<le> k" and "int k \<le> max_retry_count h"
    and "\<forall>i < k - 1. rejected cnt (on_request tr i)"
    and "on_request tr (k - 1) = Raises e"
    and "\<forall>i < k - 1. rejected cnt (on_request trc i)"
    and "on_request trc (k - 1) = Raises e"
    and "on_request trw 0 = Raises e"
    and "on_request trb 0 = Raises e"
  shows "result_of (async_write_register trw h unit_id address val) = Inr (Some False)
     \<and> result_of (async_write_coil trw h unit_id address flag) = Inr (Some False)
     \<and> result_of (async_read_holding_registers tr h unit_id address cnt) = Inl e
     \<and> length (requests (events_of (async_read_holding_registers tr h unit_id address cnt))) = k
     \<and> last (events_of (async_read_holding_registers tr h unit_id address cnt)) = LockRelease
     \<and> result_of (async_read_input_registers tr h unit_id address cnt) = Inl e
     \<and> length (requests (events_of (async_read_input_registers tr h unit_id address cnt))) = k
     \<and> last (events_of (async_read_input_registers tr h unit_id address cnt)) = LockRelease
     \<and> result_of (async_read_coils trc h unit_id address cnt) = Inl e
     \<and> length (requests (events_of (async_read_coils trc h unit_id address cnt))) = k
     \<and> last (events_of (async_read_coils trc h unit_id address cnt)) = LockRelease
     \<and> result_of (async_read_coil trb h unit_id address) = Inl e
     \<and> last (events_of (async_read_coil trb h unit_id address)) = LockRelease
     \<and> (\<forall>trw' :: int transport. \<forall>x.
            result_of (async_write_register trw' h unit_id address val) \<noteq> Inl x
            \<and> result_of (async_write_coil trw' h unit_id address flag) \<noteq> Inl x)"
proof -
  have w: "result_of (write_once trw rq h) = Inr (Some False)" for rq
    using assms(7) by (simp add: write_once_result)
  have nw: "result_of (write_once trw' rq h) \<noteq> Inl x" for trw' :: "int transport" and rq x
    by (simp add: write_once_result split: outcome.splits)
  note r = retry_loop_raises[OF assms(1,2,3,4)] and rc = retry_loop_raises[OF assms(1,2,5,6)]
  have b: "result_of (async_read_coil trb h unit_id address) = Inl e"
    using assms(8) by (simp add: read_coil_result)
  have bl: "last (events_of (async_read_coil trb h unit_id address)) = LockRelease"
    by (simp add: async_read_coil_def with_lock_last)
  show ?thesis
    unfolding b bl async_read_holding_registers_def async_read_input_registers_def
      async_read_coils_def async_write_register_def async_write_coil_def
      with_lock_result with_lock_requests with_lock_last
    using w nw r rc by simp
qed

theorem exceptions_caught_by_writes_only_witness:
  "result_of (async_write_register (io_fault :: int transport) example_host 1 8 250)
     = Inr (Some False)
   \<and> result_of (async_write_coil (io_fault :: int transport) example_host 1 8 True)
     = Inr (Some False)
   \<and> result_of (async_read_input_registers fault_on_second example_host 1 8 1)
     = Inl ModbusIOException
   \<and> length (requests (events_of (async_read_input_registers fault_on_second example_host 1 8 1)))
     = 2
   \<and> result_of (async_read_coils fault_on_second example_host 1 8 1) = Inl ModbusIOException
   \<and> result_of (async_read_coil io_fault example_host 1 8) = Inl ModbusIOException"
proof -
  have k: "1 \<le> (2::nat)" "int 2 \<le> max_retry_count example_host"
    by (simp_all add: example_host_def ModbusHost_init_def)
  have r: "\<forall>i < 2 - 1. rejected 1 (on_request (fault_on_second :: int transport) i)"
    and rc: "\<forall>i < 2 - 1. rejected 1 (on_request (fault_on_second :: bool transport) i)"
    by (simp_all add: fault_on_second_def)
  have a: "on_request (fault_on_second :: int transport) (2 - 1) = Raises ModbusIOException"
    and ac: "on_request (fault_on_second :: bool transport) (2 - 1) = Raises ModbusIOException"
    by (simp_all add: fault_on_second_def)
  have w: "on_request (io_fault :: int transport) 0 = Raises ModbusIOException"
    and b: "on_request (io_fault :: bool transport) 0 = Raises ModbusIOException"
    by (simp_all add: io_fault_def)
  from exceptions_caught_by_writes_only[OF k r a rc ac w b, of 1 8 250 True]
  show ?thesis by simp
qed

text \<open>
  The claim as stated fails: a transport fault in the first attempt of a read
  leaves the operation as an exception.
\<close>

theorem read_exception_escapes:
  "result_of (async_read_holding_registers io_fault example_host 1 4 1) = Inl ModbusIOException"
  by (simp add: async_read_holding_registers_def with_lock_def example_host_def
        ModbusHost_init_def io_fault_def async_connect_def upt_conv_Cons)

subsection \<open>The single-coil read\<close>

text \<open>
  Claim C6, as the code has it. \<^verbatim>\<open>async_read_coil\<close> makes exactly one request
  and never sleeps, whatever \<^verbatim>\<open>max_retries\<close> is. It returns \<^verbatim>\<open>None\<close> when the
  response carries the error flag, and the first bit when the response carries
  no error flag and holds at least one bit.
\<close>

theorem read_coil_single_attempt:
  assumes "on_request tr 0 = Response err bits" and "err \<or> bits \<noteq> []"
  shows "result_of (async_read_coil tr h unit_id address)
           = Inr (if err then None else Some (hd bits))
     \<and> pacing (events_of (async_read_coil tr h unit_id address))
           = [Request (ReadCoils address 1 unit_id)]"
  using assms by (cases bits) (auto simp: read_coil_result read_coil_pacing)

theorem read_coil_single_attempt_witness:
  "result_of (async_read_coil coil_byte example_host 1 4) = Inr (Some True)
   \<and> result_of (async_read_coil always_error example_host 1 4) = Inr None
   \<and> pacing (events_of (async_read_coil always_error example_host 1 4))
        = [Request (ReadCoils 4 1 1)]"
proof -
  have a: "on_request coil_byte 0 =
      Response False [True, False, False, False, False, False, False, False]"
    by (simp add: coil_byte_def)
  have b: "on_request (always_error :: bool transport) 0 = Response True []"
    by (simp add: always_error_def)
  from read_coil_single_attempt[OF a, of example_host 1 4]
    read_coil_single_attempt[OF b, of example_host 1 4]
  show ?thesis by simp
qed

text \<open>
  The claim as stated fails: a response without error flag and without bits
  gives neither the boolean nor \<^verbatim>\<open>None\<close>, but an \<^verbatim>\<open>IndexError\<close>.
\<close>

theorem read_coil_empty_response_raises:
  "result_of (async_read_coil empty_reply example_host 1 4) = Inl IndexError"
  by (simp add: read_coil_result empty_reply_def)

text \<open>
  Claim C10. \<^verbatim>\<open>async_read_coil\<close> does not compare the number of bits with the
  one it asked for: every response without error flag is accepted and indexed
  at 0, which gives the first bit of any non-empty list, however long, and
  raises \<^verbatim>\<open>IndexError\<close> on the empty one. The three multi-value reads index
  nothing and return a list only when its length is the requested count: an
  exception can come out of them only if the client call raised it.
\<close>

theorem read_coil_unguarded_index:
  "(on_request tr 0 = Response False [] \<longrightarrow>
      result_of (async_read_coil tr h unit_id address) = Inl IndexError)
   \<and> (on_request tr 0 = Response False (b # bs) \<longrightarrow>
      result_of (async_read_coil tr h unit_id address) = Inr (Some b))
   \<and> (result_of (async_read_coils tr h unit_id address cnt) = Inr (Some bits) \<longrightarrow>
      int (length bits) = cnt)
   \<and> (result_of (async_read_holding_registers tri h unit_id address cnt) = Inr (Some vals) \<longrightarrow>
      int (length vals) = cnt)
   \<and> (result_of (async_read_input_registers tri h unit_id address cnt) = Inr (Some vals) \<longrightarrow>
      int (length vals) = cnt)
   \<and> (result_of (async_read_coils tr h unit_id address cnt) = Inl e \<longrightarrow>
      (\<exists>i. on_request tr i = Raises e))
   \<and> (result_of (async_read_holding_registers tri h unit_id address cnt) = Inl e \<longrightarrow>
      (\<exists>i. on_request tri i = Raises e))
   \<and> (result_of (async_read_input_registers tri h unit_id address cnt) = Inl e \<longrightarrow>
      (\<exists>i. on_request tri i = Raises e))"
  unfolding async_read_holding_registers_def async_read_input_registers_def
    async_read_coils_def with_lock_result
  using retry_loop_sound[of tr _ cnt h] retry_loop_sound[of tri _ cnt h]
  by (simp add: read_coil_result)

theorem read_coil_unguarded_index_witness:
  "result_of (async_read_coil empty_reply example_host 1 4) = Inl IndexError
   \<and> result_of (async_read_coil coil_byte example_host 1 4) = Inr (Some True)
   \<and> result_of (async_read_coils empty_reply example_host 1 4 1) = Inr None
   \<and> result_of (async_read_coils third_time_coils example_host 1 4 1) = Inr (Some [True])
   \<and> result_of (async_read_coils io_fault example_host 1 4 1) = Inl ModbusIOException"
proof -
  have a: "on_request empty_reply 0 = Response False []"
    by (simp add: empty_reply_def)
  have b: "on_request coil_byte 0 =
      Response False (True # [False, False, False, False, False, False, False])"
    by (simp add: coil_byte_def)
  have c: "result_of (async_read_coils third_time_coils example_host 1 4 1) = Inr (Some [True])"
    by (simp add: async_read_coils_def with_lock_def example_host_def ModbusHost_init_def
          third_time_coils_def async_connect_def upt_conv_Cons)
  have d: "result_of (async_read_coils io_fault example_host 1 4 1) = Inl ModbusIOException"
    by (simp add: async_read_coils_def with_lock_def example_host_def ModbusHost_init_def
          io_fault_def async_connect_def upt_conv_Cons)
  have e: "result_of (async_read_coils empty_reply example_host 1 4 1) = Inr None"
    by (simp add: async_read_coils_def with_lock_def example_host_def ModbusHost_init_def
          empty_reply_def async_connect_def upt_conv_Cons)
  from read_coil_unguarded_index[where tr = empty_reply and h = example_host
      and unit_id = 1 and address = 4] a
  have "result_of (async_read_coil empty_reply example_host 1 4) = Inl IndexError" by simp
  moreover from read_coil_unguarded_index[where tr = coil_byte and h = example_host
      and unit_id = 1 and address = 4 and b = True
      and bs = "[False, False, False, False, False, False, False]"] b
  have "result_of (async_read_coil coil_byte example_host 1 4) = Inr (Some True)" by simp
  ultimately show ?thesis using c d e by simp
qed

subsection \<open>The subscriber count and the registry\<close>

text \<open>
  Claim C5. For a sequence of acquires and releases of an endpoint the
  subscriber count is the number of acquires minus the number of releases and
  is never negative (\<open>count_balance_matched\<close>), and the host is in the registry
  if and only if the count is positive. The last part holds as long as no
  \<^verbatim>\<open>await\<close> of \<^verbatim>\<open>close()\<close> raises (\<open>registered_iff_positive_quiet\<close>). It fails
  on the history below: an entry is set up, its entity reads once, which
  connects the host, and the entry is unloaded with a client whose \<^verbatim>\<open>close()\<close>
  is not awaitable. The count is 0, as one acquire and one release make it,
  and the host is still registered.
\<close>

theorem stale_host_after_failed_close:
  "matched ''10.0.0.5:502''
     [SetupEntry entry_a, EntityRead entry_a one_register 1 8 1,
      UnloadEntry entry_a True (Some TypeError)]
   \<and> int (acquires ''10.0.0.5:502''
          [SetupEntry entry_a, EntityRead entry_a one_register 1 8 1,
           UnloadEntry entry_a True (Some TypeError)])
       - int (releases ''10.0.0.5:502''
          [SetupEntry entry_a, EntityRead entry_a one_register 1 8 1,
           UnloadEntry entry_a True (Some TypeError)]) = 0
   \<and> count_at (run_calls (async_setup fresh_hass)
         [SetupEntry entry_a, EntityRead entry_a one_register 1 8 1,
          UnloadEntry entry_a True (Some TypeError)]) ''10.0.0.5:502'' = 0
   \<and> registered (run_calls (async_setup fresh_hass)
         [SetupEntry entry_a, EntityRead entry_a one_register 1 8 1,
          UnloadEntry entry_a True (Some TypeError)]) ''10.0.0.5:502''"
proof -
  let ?calls = "[SetupEntry entry_a, EntityRead entry_a one_register 1 8 1,
      UnloadEntry entry_a True (Some TypeError)]"
  have m: "matched ''10.0.0.5:502'' ?calls"
    by (simp add: matched_def acquires_def releases_def example_keys)
  have n: "int (acquires ''10.0.0.5:502'' ?calls) - int (releases ''10.0.0.5:502'' ?calls) = 0"
    by (simp add: acquires_def releases_def example_keys)
  have c: "count_at (run_calls (async_setup fresh_hass) ?calls) ''10.0.0.5:502'' = 0"
    using count_balance_matched(1)[OF m, of fresh_hass] n by simp
  have r: "registered (run_calls (async_setup fresh_hass) ?calls) ''10.0.0.5:502''"
    by (simp add: run_calls_def registered_def async_setup_def fresh_hass_def
          async_setup_entry_def entity_read_def async_unload_entry_def Let_def example_keys
          example_entry_fields add_subscriber_def remove_subscriber_def get_subscriber_count_def
          ModbusHost_new_def ModbusHost_init_def async_read_input_registers_def with_lock_def
          one_register_def async_connect_def async_disconnect_def upt_conv_Cons)
  from m n c r show ?thesis by simp
qed

text \<open>
  Claim C7. A release that brings the subscriber count to zero is to remove
  the registry entry of the endpoint and close the transport. The transport is
  closed in every case, and the entry is removed when the host is not
  connected or the \<^verbatim>\<open>await\<close> of \<^verbatim>\<open>close()\<close> returns (\<open>last_release_removes_entry\<close>);
  an endpoint set up twice and unloaded once is still registered with count 1
  (\<open>two_acquires_one_release\<close>). With a connected host and a client whose
  \<^verbatim>\<open>close()\<close> is not awaitable, the \<^verbatim>\<open>await\<close> raises after the client has closed,
  \<^verbatim>\<open>async_unload_entry\<close> ends there, and both \<^verbatim>\<open>del\<close> statements are skipped: the
  entry stays in the registry, with count 0.
\<close>

theorem last_release_keeps_entry_when_close_raises:
  "fst (async_unload_entry polling_hass entry_a True (Some TypeError)) = Inl TypeError
   \<and> snd (snd (async_unload_entry polling_hass entry_a True (Some TypeError))) = [Close]
   \<and> \<not> connected
         (store (fst (snd (async_unload_entry polling_hass entry_a True (Some TypeError)))) 0)
   \<and> subscriber_count
         (store (fst (snd (async_unload_entry polling_hass entry_a True (Some TypeError)))) 0) = 0
   \<and> domain_data (fst (snd (async_unload_entry polling_hass entry_a True (Some TypeError))))
         ''10.0.0.5:502'' = Some 0
   \<and> entry_data (fst (snd (async_unload_entry polling_hass entry_a True (Some TypeError))))
         ''entry-a'' = Some 0"
  by (simp add: async_unload_entry_def polling_hass_def example_keys Let_def
        remove_subscriber_def get_subscriber_count_def async_disconnect_def
        ModbusHost_new_def ModbusHost_init_def example_entry_fields)

subsection \<open>The scope of the lock\<close>

text \<open>
  In a single run every register operation takes the lock of its host first
  and gives it back last, on a return and on an exception alike. What tasks
  that run at the same time see of each other is outside this sequential model.
\<close>

lemma with_lock_scope:
  "events_of (with_lock body h) = LockAcquire # events_of (body h) @ [LockRelease]"
  by (simp add: with_lock_def split: prod.splits)

end
